theory Spec2Isabelle
  imports Complex_Main "HOL-Library.Log_Nat"
begin

section \<open>Double-precision arithmetic of the index computation\<close>

text \<open>
  The source computes the palette index as
  \<^verbatim>\<open>int((pixel_value / 255) * (len(chars) - 1))\<close>.
  In Python \<^verbatim>\<open>/\<close> on two ints is true division: the exact quotient rounded to
  the nearest IEEE 754 binary64 number, ties to even. The product of that float with the
  int \<^verbatim>\<open>len(chars) - 1\<close> first converts the int to a float (the nearest one, ties to
  even) and then rounds the exact product the same way. \<^verbatim>\<open>int\<close> truncates towards zero.

  A finite double is modelled by the rational number it denotes. Every value that occurs
  lies far inside the exponent range of binary64 (a sample has 8 bits and a \<^verbatim>\<open>str\<close> has
  fewer than \<open>2^63\<close> characters), so neither overflow nor gradual underflow takes place
  and rounding keeps 53 significant bits at an unbounded exponent.
\<close>

definition ilog2 :: "rat \<Rightarrow> int" where
  \<comment> \<open>for \<open>q > 0\<close>: the exponent \<open>k\<close> with \<open>2^k \<le> q < 2^(k+1)\<close>\<close>
  "ilog2 q = (let (a, b) = quotient_of q; k = bitlen a - bitlen b
              in if 2 powi k \<le> q then k else k - 1)"

definition round_half_even :: "rat \<Rightarrow> int" where
  "round_half_even y = (let f = \<lfloor>y\<rfloor>; d = y - of_int f in
     if d < 1/2 then f else if 1/2 < d then f + 1 else if even f then f else f + 1)"

definition fl_pos :: "rat \<Rightarrow> rat" where
  \<comment> \<open>for \<open>q > 0\<close>: scale the significand into \<open>[2^52, 2^53)\<close>, round it, scale back\<close>
  "fl_pos q = (let e = ilog2 q - 52
               in of_int (round_half_even (q / 2 powi e)) * 2 powi e)"

definition fl :: "rat \<Rightarrow> rat" where
  "fl q = (if q = 0 then 0 else if q < 0 then - fl_pos (- q) else fl_pos q)"

definition true_div :: "int \<Rightarrow> int \<Rightarrow> rat" where
  \<comment> \<open>\<^verbatim>\<open>a / b\<close> on ints, \<open>b \<noteq> 0\<close>\<close>
  "true_div a b = fl (of_int a / of_int b)"

definition float_of_int :: "int \<Rightarrow> rat" where
  "float_of_int i = fl (of_int i)"

definition float_mul :: "rat \<Rightarrow> rat \<Rightarrow> rat" where
  "float_mul a b = fl (a * b)"

definition py_int :: "rat \<Rightarrow> int" where
  \<comment> \<open>\<^verbatim>\<open>int(f)\<close>: truncation towards zero\<close>
  "py_int r = (if 0 \<le> r then \<lfloor>r\<rfloor> else \<lceil>r\<rceil>)"

definition char_index :: "nat \<Rightarrow> string \<Rightarrow> int" where
  "char_index pixel_value chars =
     py_int (float_mul (true_div (int pixel_value) 255)
                       (float_of_int (int (length chars) - 1)))"

section \<open>Exceptions and indexing\<close>

datatype exn = PILError string | IndexError string

fun message :: "exn \<Rightarrow> string" where
  "message (PILError m) = m"
| "message (IndexError m) = m"

definition str_getitem :: "string \<Rightarrow> int \<Rightarrow> exn + char" where
  \<comment> \<open>\<^verbatim>\<open>chars[i]\<close>: a negative index counts from the end\<close>
  "str_getitem s i =
     (let n = int (length s); j = (if i < 0 then n + i else i)
      in if 0 \<le> j \<and> j < n then Inr (s ! nat j)
         else Inl (IndexError ''string index out of range''))"

definition getdata_item :: "nat list \<Rightarrow> nat \<Rightarrow> exn + nat" where
  \<comment> \<open>\<^verbatim>\<open>pixels[k]\<close> on the flattened image data, \<open>k \<ge> 0\<close>\<close>
  "getdata_item pixels k =
     (if k < length pixels then Inr (pixels ! k)
      else Inl (IndexError ''image index out of range''))"

section \<open>image_to_ascii\<close>

text \<open>
  The calls into the imaging library (open, convert to mode L, resize, getdata) are a
  parameter \<open>decode\<close>: given path, width and height it yields either the text of the
  exception the library raised or the flattened sequence of 8-bit samples.
  \<^verbatim>\<open>range(k)\<close> is \<open>[0..<nat k]\<close>, empty for \<open>k \<le> 0\<close>. The body of the inner loop
  runs only when \<open>width > 0\<close>, so the pixel position \<^verbatim>\<open>i * width + j\<close> is a natural number.
\<close>

fun inner_loop :: "nat list \<Rightarrow> int \<Rightarrow> string \<Rightarrow> nat \<Rightarrow> nat list \<Rightarrow> string \<Rightarrow> exn + string" where
  "inner_loop pixels width chars i [] line = Inr line"
| "inner_loop pixels width chars i (j # js) line =
     (case getdata_item pixels (nat (int i * width + int j)) of
        Inl e \<Rightarrow> Inl e
      | Inr pixel_value \<Rightarrow>
          (case str_getitem chars (char_index pixel_value chars) of
             Inl e \<Rightarrow> Inl e
           | Inr c \<Rightarrow> inner_loop pixels width chars i js (line @ [c])))"

fun outer_loop :: "nat list \<Rightarrow> int \<Rightarrow> string \<Rightarrow> nat list \<Rightarrow> string list \<Rightarrow> exn + string list" where
  "outer_loop pixels width chars [] ascii_lines = Inr ascii_lines"
| "outer_loop pixels width chars (i # is) ascii_lines =
     (case inner_loop pixels width chars i [0..<nat width] [] of
        Inl e \<Rightarrow> Inl e
      | Inr line \<Rightarrow> outer_loop pixels width chars is (ascii_lines @ [line]))"

definition newline :: string where
  "newline = [CHR 0x0A]"

definition image_to_ascii ::
  "(string \<Rightarrow> int \<Rightarrow> int \<Rightarrow> string + nat list) \<Rightarrow> string \<Rightarrow> int \<Rightarrow> int \<Rightarrow> string \<Rightarrow> string + string list" where
  \<comment> \<open>\<open>Inl err\<close>: \<open>err\<close> was printed on stderr and the process left with status 1\<close>
  "image_to_ascii decode image_path width height chars =
     (case (case decode image_path width height of
              Inl m \<Rightarrow> Inl (PILError m)
            | Inr pixels \<Rightarrow> outer_loop pixels width chars [0..<nat height] []) of
        Inl e \<Rightarrow> Inl (''Error processing image: '' @ message e @ newline)
      | Inr ascii_lines \<Rightarrow> Inr ascii_lines)"

section \<open>format_for_svg\<close>

fun replace_char :: "char \<Rightarrow> string \<Rightarrow> string \<Rightarrow> string" where
  \<comment> \<open>\<^verbatim>\<open>s.replace(old, new)\<close> for a pattern \<open>old\<close> of one character\<close>
  "replace_char old new [] = []"
| "replace_char old new (c # s) =
     (if c = old then new @ replace_char old new s else c # replace_char old new s)"

definition escape_line :: "string \<Rightarrow> string" where
  "escape_line line =
     replace_char CHR ''>'' ''&gt;''
       (replace_char CHR ''<'' ''&lt;''
          (replace_char CHR ''&'' ''&amp;'' line))"

definition digit_char :: "nat \<Rightarrow> char" where
  "digit_char d = char_of (48 + d)"

fun str_nat :: "nat \<Rightarrow> string" where
  "str_nat n = (if n < 10 then [digit_char n] else str_nat (n div 10) @ [digit_char (n mod 10)])"

declare str_nat.simps [simp del]

definition str_int :: "int \<Rightarrow> string" where
  \<comment> \<open>the decimal text an f-string gives an int\<close>
  "str_int i = (if i < 0 then CHR ''-'' # str_nat (nat (- i)) else str_nat (nat i))"

definition tspan :: "int \<Rightarrow> int \<Rightarrow> string \<Rightarrow> string" where
  "tspan x y escaped_line =
     ''<tspan x='' @ [CHR 0x22] @ str_int x @ [CHR 0x22] @ '' y='' @ [CHR 0x22] @ str_int y
       @ [CHR 0x22] @ ''>'' @ escaped_line @ ''</tspan>''"

fun join :: "string \<Rightarrow> string list \<Rightarrow> string" where
  "join sep [] = []"
| "join sep [s] = s"
| "join sep (s # t # ts) = s @ sep @ join sep (t # ts)"

fun svg_loop :: "int \<Rightarrow> int \<Rightarrow> int \<Rightarrow> nat \<Rightarrow> string list \<Rightarrow> string list \<Rightarrow> string list" where
  \<comment> \<open>the loop over \<^verbatim>\<open>enumerate(ascii_lines)\<close>, \<open>i\<close> the running index\<close>
  "svg_loop x y_start line_height i [] svg_lines = svg_lines"
| "svg_loop x y_start line_height i (line # rest) svg_lines =
     (let y = y_start + int i * line_height;
          escaped_line = escape_line line
      in svg_loop x y_start line_height (Suc i) rest (svg_lines @ [tspan x y escaped_line]))"

definition format_for_svg :: "string list \<Rightarrow> int \<Rightarrow> int \<Rightarrow> int \<Rightarrow> string" where
  "format_for_svg ascii_lines x y_start line_height =
     join newline (svg_loop x y_start line_height 0 ascii_lines [])"

section \<open>main\<close>

datatype fmt = Text | Svg

record args =
  arg_image_path :: string
  arg_width :: int
  arg_height :: int
  arg_chars :: string
  arg_format :: fmt
  arg_x :: int
  arg_y_start :: int
  arg_line_height :: int

record process =
  stdout :: string
  stderr :: string
  exit_status :: int

fun print_lines :: "string list \<Rightarrow> string \<Rightarrow> string" where
  \<comment> \<open>\<^verbatim>\<open>for line in ascii_lines: print(line)\<close>, appending to what stdout holds\<close>
  "print_lines [] out = out"
| "print_lines (line # rest) out = print_lines rest (out @ line @ newline)"

definition main :: "(string \<Rightarrow> int \<Rightarrow> int \<Rightarrow> string + nat list) \<Rightarrow> args \<Rightarrow> process" where
  "main decode a =
     (case image_to_ascii decode (arg_image_path a) (arg_width a) (arg_height a) (arg_chars a) of
        Inl err \<Rightarrow> \<lparr>stdout = [], stderr = err, exit_status = 1\<rparr>
      | Inr ascii_lines \<Rightarrow>
          (case arg_format a of
             Svg \<Rightarrow>
               \<lparr>stdout = format_for_svg ascii_lines (arg_x a) (arg_y_start a) (arg_line_height a)
                           @ newline,
                stderr = [], exit_status = 0\<rparr>
           | Text \<Rightarrow> \<lparr>stdout = print_lines ascii_lines [], stderr = [], exit_status = 0\<rparr>))"

section \<open>Reference formulations\<close>


definition index_spec :: "nat \<Rightarrow> nat \<Rightarrow> int" where
  \<comment> \<open>the index as the specification words it, in exact arithmetic:
      \<open>floor(v / 255 * (n - 1))\<close>\<close>
  "index_spec v n = \<lfloor>(of_nat v :: rat) / 255 * (of_nat n - 1)\<rfloor>"

fun escape_char_spec :: "char \<Rightarrow> string" where
  \<comment> \<open>the escaping as the specification words it: one pass, one character at a time\<close>
  "escape_char_spec c =
     (if c = CHR ''&'' then ''&amp;''
      else if c = CHR ''<'' then ''&lt;''
      else if c = CHR ''>'' then ''&gt;''
      else [c])"

definition letters :: string where
  \<comment> \<open>a palette of 52 characters\<close>
  "letters = ''abcdefghijklmnopqrstuvwxyzABCDEFGHIJKLMNOPQRSTUVWXYZ''"

definition default_chars :: string where
  \<comment> \<open>the default of \<^verbatim>\<open>--chars\<close>\<close>
  "default_chars = ''@%#*+=-:. ''"

definition sample_args :: args where
  "sample_args =
     \<lparr>arg_image_path = ''photo.png'', arg_width = 2, arg_height = 2, arg_chars = ''@ '',
      arg_format = Text, arg_x = 15, arg_y_start = 30, arg_line_height = 20\<rparr>"

definition sample_decode :: "string \<Rightarrow> int \<Rightarrow> int \<Rightarrow> string + nat list" where
  \<comment> \<open>an image that loads into two rows of two samples\<close>
  "sample_decode image_path width height = Inr [0, 255, 255, 0]"






section \<open>Rounding to 53 bits\<close>

lemma pow2_pos: "0 < (2::rat) powi e"
  by simp

lemma pow2_mono: "e1 \<le> e2 \<Longrightarrow> (2::rat) powi e1 \<le> 2 powi e2"
  by (rule power_int_increasing) simp_all

lemma pow2_Suc: "(2::rat) powi (e + 1) = 2 * 2 powi e"
  by (simp add: power_int_add)

lemma ilog2_bounds:
  assumes "0 < q"
  shows "2 powi (ilog2 q) \<le> q \<and> q < 2 powi (ilog2 q + 1)"
proof -
  obtain a b where ab: "quotient_of q = (a, b)" by (cases "quotient_of q")
  have b: "0 < b" using ab by (rule quotient_of_denom_pos)
  have q: "q = of_int a / of_int b" using ab by (rule quotient_of_div)
  have a: "0 < a" using assms b unfolding q by (simp add: zero_less_divide_iff)
  define la where "la = bitlen a"
  define lb where "lb = bitlen b"
  have la1: "1 \<le> la" using a bitlen_eq_zero_iff[of a] bitlen_nonneg[of a] by (simp add: la_def)
  have lb1: "1 \<le> lb" using b bitlen_eq_zero_iff[of b] bitlen_nonneg[of b] by (simp add: lb_def)
  have conv: "\<And>k. 0 \<le> k \<Longrightarrow> (2::rat) powi k = of_int ((2::int) ^ nat k)"
    by (simp add: power_int_def)
  have ia: "2 ^ nat (la - 1) \<le> a" "a < 2 ^ nat la"
    using bitlen_bounds[OF a] by (simp_all add: la_def)
  have A: "2 powi (la - 1) \<le> (of_int a :: rat)" "(of_int a :: rat) < 2 powi la"
    using la1 ia by (simp_all add: conv)
  have ib: "2 ^ nat (lb - 1) \<le> b" "b < 2 ^ nat lb"
    using bitlen_bounds[OF b] by (simp_all add: lb_def)
  have B: "2 powi (lb - 1) \<le> (of_int b :: rat)" "(of_int b :: rat) < 2 powi lb"
    using lb1 ib by (simp_all add: conv)
  have bpos: "0 < (of_int b :: rat)" using b by simp
  have up: "q < 2 powi (la - lb + 1)"
  proof -
    have "of_int a < (2::rat) powi la" by (rule A)
    also have "\<dots> = 2 powi (la - lb + 1) * 2 powi (lb - 1)"
      by (simp flip: power_int_add)
    also have "\<dots> \<le> 2 powi (la - lb + 1) * of_int b"
      using B(1) by (simp add: mult_left_mono)
    finally show ?thesis using bpos by (simp add: q pos_divide_less_eq)
  qed
  have lo: "2 powi (la - lb - 1) < q"
  proof -
    have "2 powi (la - lb - 1) * of_int b < (2::rat) powi (la - lb - 1) * 2 powi lb"
      using B(2) by (simp add: mult_strict_left_mono)
    also have "\<dots> = 2 powi (la - 1)"
      by (simp flip: power_int_add)
    also have "\<dots> \<le> of_int a" by (rule A)
    finally show ?thesis using bpos by (simp add: q pos_less_divide_eq)
  qed
  show ?thesis
  proof (cases "2 powi (la - lb) \<le> q")
    case True
    then have "ilog2 q = la - lb" by (simp add: ilog2_def ab la_def lb_def)
    with True up show ?thesis by simp
  next
    case False
    then have "ilog2 q = la - lb - 1" by (simp add: ilog2_def ab la_def lb_def)
    with False lo show ?thesis by simp
  qed
qed

lemma ilog2_unique:
  assumes "2 powi k \<le> q" "q < 2 powi (k + 1)"
  shows "ilog2 q = k"
proof -
  have q: "0 < q" using assms(1) pow2_pos[of k] by (rule less_le_trans[rotated])
  note b = ilog2_bounds[OF q]
  have "\<not> ilog2 q < k"
  proof
    assume "ilog2 q < k"
    then have "2 powi (ilog2 q + 1) \<le> (2::rat) powi k" by (intro pow2_mono) simp
    with b assms show False by simp
  qed
  moreover have "\<not> k < ilog2 q"
  proof
    assume "k < ilog2 q"
    then have "2 powi (k + 1) \<le> (2::rat) powi (ilog2 q)" by (intro pow2_mono) simp
    with b assms show False by simp
  qed
  ultimately show ?thesis by simp
qed

lemma ilog2_mono:
  assumes "0 < p" "p \<le> q"
  shows "ilog2 p \<le> ilog2 q"
proof (rule ccontr)
  assume "\<not> ilog2 p \<le> ilog2 q"
  then have "2 powi (ilog2 q + 1) \<le> (2::rat) powi (ilog2 p)" by (intro pow2_mono) simp
  moreover have "0 < q" using assms by simp
  ultimately show False using ilog2_bounds[OF assms(1)] ilog2_bounds[OF \<open>0 < q\<close>] assms(2) by simp
qed

lemma round_half_even_error: "\<bar>of_int (round_half_even y) - y\<bar> \<le> 1 / 2"
proof -
  have "of_int \<lfloor>y\<rfloor> \<le> y" "y < of_int \<lfloor>y\<rfloor> + 1" by linarith+
  then show ?thesis by (auto simp: round_half_even_def Let_def)
qed

lemma round_half_even_of_int: "round_half_even (of_int n) = n"
  by (simp add: round_half_even_def)

lemma round_half_even_mono:
  assumes "y1 \<le> y2"
  shows "round_half_even y1 \<le> round_half_even y2"
proof -
  have f: "\<lfloor>y1\<rfloor> \<le> \<lfloor>y2\<rfloor>" using assms by (rule floor_mono)
  have b1: "\<lfloor>y1\<rfloor> \<le> round_half_even y1" "round_half_even y1 \<le> \<lfloor>y1\<rfloor> + 1"
    by (auto simp: round_half_even_def Let_def)
  have b2: "\<lfloor>y2\<rfloor> \<le> round_half_even y2"
    by (auto simp: round_half_even_def Let_def)
  show ?thesis
  proof (cases "\<lfloor>y1\<rfloor> = \<lfloor>y2\<rfloor>")
    case True
    then have "y1 - of_int \<lfloor>y2\<rfloor> \<le> y2 - of_int \<lfloor>y2\<rfloor>" using assms by simp
    then show ?thesis using True by (auto simp: round_half_even_def Let_def)
  next
    case False
    with f have "\<lfloor>y1\<rfloor> + 1 \<le> \<lfloor>y2\<rfloor>" by simp
    with b1 b2 show ?thesis by linarith
  qed
qed

lemma scaled_bounds:
  assumes "0 < q"
  shows "2 ^ 52 \<le> q / 2 powi (ilog2 q - 52)" "q / 2 powi (ilog2 q - 52) < 2 ^ 53"
proof -
  have e: "(2::rat) powi (ilog2 q - 52) = 2 powi (ilog2 q) / 2 ^ 52"
    by (simp add: power_int_diff)
  have p: "0 < (2::rat) powi (ilog2 q)" by simp
  note b = ilog2_bounds[OF assms]
  show "2 ^ 52 \<le> q / 2 powi (ilog2 q - 52)"
    unfolding e using b p by (simp add: pos_le_divide_eq)
  have "q < 2 * 2 powi (ilog2 q)" using b by (simp add: pow2_Suc)
  then show "q / 2 powi (ilog2 q - 52) < 2 ^ 53"
    unfolding e using p by (simp add: pos_divide_less_eq)
qed

lemma fl_pos_error:
  assumes "0 < q"
  shows "\<bar>fl_pos q - q\<bar> \<le> q / 2 ^ 53"
proof -
  define e where "e = ilog2 q - 52"
  define y where "y = q / 2 powi e"
  have p: "0 < (2::rat) powi e" by simp
  have q: "y * 2 powi e = q" by (simp add: y_def)
  have f: "fl_pos q = of_int (round_half_even y) * 2 powi e"
    by (simp add: fl_pos_def Let_def e_def y_def)
  have "fl_pos q - q = (of_int (round_half_even y) - y) * 2 powi e"
    unfolding f by (simp add: left_diff_distrib q)
  then have "\<bar>fl_pos q - q\<bar> = \<bar>of_int (round_half_even y) - y\<bar> * 2 powi e"
    using p by (simp add: abs_mult)
  also have "\<dots> \<le> (1 / 2) * 2 powi e"
    using round_half_even_error[of y] p by (intro mult_right_mono) simp_all
  also have "\<dots> \<le> (1 / 2) * (q / 2 ^ 52)"
  proof -
    have "2 ^ 52 \<le> y" using scaled_bounds(1)[OF assms] by (simp add: y_def e_def)
    then have "2 ^ 52 * 2 powi e \<le> y * 2 powi e" using p by (intro mult_right_mono) simp_all
    then have "2 powi e \<le> q / 2 ^ 52" by (simp add: q pos_le_divide_eq mult.commute)
    then show ?thesis by simp
  qed
  finally show ?thesis by simp
qed

lemma fl_pos_range:
  assumes "0 < q"
  shows "2 powi (ilog2 q) \<le> fl_pos q" "fl_pos q \<le> 2 powi (ilog2 q + 1)"
proof -
  define e where "e = ilog2 q - 52"
  define y where "y = q / 2 powi e"
  have p: "0 < (2::rat) powi e" by simp
  have y: "of_int (2 ^ 52) \<le> y" "y \<le> of_int (2 ^ 53)"
    using scaled_bounds[OF assms] by (simp_all add: y_def e_def)
  have "round_half_even (of_int (2 ^ 52)) \<le> round_half_even y"
    "round_half_even y \<le> round_half_even (of_int (2 ^ 53))"
    using round_half_even_mono[OF y(1)] round_half_even_mono[OF y(2)] by blast+
  then have r: "2 ^ 52 \<le> round_half_even y" "round_half_even y \<le> 2 ^ 53"
    by (simp_all only: round_half_even_of_int)
  have "(of_int (2 ^ 52) :: rat) \<le> of_int (round_half_even y)"
    "(of_int (round_half_even y) :: rat) \<le> of_int (2 ^ 53)"
    using r by (simp_all only: of_int_le_iff)
  then have rr: "(2::rat) ^ 52 \<le> of_int (round_half_even y)"
    "(of_int (round_half_even y) :: rat) \<le> 2 ^ 53"
    by simp_all
  have f: "fl_pos q = of_int (round_half_even y) * 2 powi e"
    by (simp add: fl_pos_def Let_def e_def y_def)
  have "(2::rat) powi (ilog2 q) = 2 ^ 52 * 2 powi e"
    by (simp add: e_def power_int_diff)
  also have "\<dots> \<le> of_int (round_half_even y) * 2 powi e"
    using rr(1) p by (intro mult_right_mono) simp_all
  finally show "2 powi (ilog2 q) \<le> fl_pos q" by (simp add: f)
  have "of_int (round_half_even y) * 2 powi e \<le> (2::rat) ^ 53 * 2 powi e"
    using rr(2) p by (intro mult_right_mono) simp_all
  also have "\<dots> = 2 powi (ilog2 q + 1)"
    by (simp add: e_def power_int_diff power_int_add)
  finally show "fl_pos q \<le> 2 powi (ilog2 q + 1)" by (simp add: f)
qed

lemma fl_pos_mono:
  assumes "0 < p" "p \<le> q"
  shows "fl_pos p \<le> fl_pos q"
proof -
  have q: "0 < q" using assms by simp
  have le: "ilog2 p \<le> ilog2 q" using assms by (rule ilog2_mono)
  show ?thesis
  proof (cases "ilog2 p = ilog2 q")
    case True
    define e where "e = ilog2 q - 52"
    have "p / 2 powi e \<le> q / 2 powi e" using assms(2) by (simp add: divide_right_mono)
    then have "round_half_even (p / 2 powi e) \<le> round_half_even (q / 2 powi e)"
      by (rule round_half_even_mono)
    then have "(of_int (round_half_even (p / 2 powi e)) :: rat) \<le> of_int (round_half_even (q / 2 powi e))"
      by (simp only: of_int_le_iff)
    then have "of_int (round_half_even (p / 2 powi e)) * 2 powi e
               \<le> of_int (round_half_even (q / 2 powi e)) * (2::rat) powi e"
      by (intro mult_right_mono) simp_all
    then show ?thesis by (simp add: fl_pos_def Let_def True e_def)
  next
    case False
    with le have "ilog2 p + 1 \<le> ilog2 q" by simp
    then have "(2::rat) powi (ilog2 p + 1) \<le> 2 powi (ilog2 q)" by (rule pow2_mono)
    with fl_pos_range(2)[OF assms(1)] fl_pos_range(1)[OF q] show ?thesis by linarith
  qed
qed

lemma fl_pos_exact:
  assumes "0 < m" "m \<le> 2 ^ 53"
  shows "fl_pos (of_int m) = of_int m"
proof -
  define q :: rat where "q = of_int m"
  have q: "0 < q" using assms by (simp add: q_def)
  define e where "e = ilog2 q - 52"
  have f: "fl_pos q = of_int (round_half_even (q / 2 powi e)) * 2 powi e"
    by (simp add: fl_pos_def Let_def e_def)
  have "fl_pos q = q"
  proof (cases "m = 2 ^ 53")
    case True
    then have q53: "q = 2 ^ 53" by (simp add: q_def)
    have "ilog2 q = 53" by (rule ilog2_unique) (simp_all add: q53)
    then have e: "e = 1" by (simp add: e_def)
    have "q / 2 powi e = of_int (2 ^ 52)" by (simp add: e q53)
    then have "round_half_even (q / 2 powi e) = 2 ^ 52"
      by (simp only: round_half_even_of_int)
    then show ?thesis unfolding f by (simp add: e q53)
  next
    case False
    with assms have "m < 2 ^ 53" by simp
    then have "(of_int m :: rat) < of_int (2 ^ 53)" by (simp only: of_int_less_iff)
    then have "q < 2 powi 53" by (simp add: q_def)
    with ilog2_bounds[OF q] have lt: "2 powi (ilog2 q) < (2::rat) powi 53" by simp
    have "ilog2 q < 53"
    proof (rule ccontr)
      assume "\<not> ilog2 q < 53"
      then have "(2::rat) powi 53 \<le> 2 powi (ilog2 q)" by (intro pow2_mono) simp
      with lt show False by simp
    qed
    then have e: "e \<le> 0" by (simp add: e_def)
    define k where "k = nat (- e)"
    have pe: "(2::rat) powi e = 1 / 2 ^ k" using e by (simp add: power_int_def k_def field_simps)
    have "q / 2 powi e = of_int (m * 2 ^ k)" by (simp add: pe q_def)
    then have "round_half_even (q / 2 powi e) = m * 2 ^ k"
      by (simp only: round_half_even_of_int)
    then show ?thesis unfolding f by (simp add: pe q_def)
  qed
  then show ?thesis by (simp add: q_def)
qed

section \<open>The index computation\<close>

lemma fl_zero: "fl 0 = 0"
  by (simp add: fl_def)

lemma fl_pos_positive: "0 < q \<Longrightarrow> 0 < fl_pos q"
  using fl_pos_range(1)[of q] pow2_pos[of "ilog2 q"] by linarith

lemma fl_nonneg: "0 \<le> q \<Longrightarrow> 0 \<le> fl q"
  using fl_pos_positive[of q] by (auto simp: fl_def)

lemma fl_mono:
  assumes "0 \<le> p" "p \<le> q"
  shows "fl p \<le> fl q"
proof (cases "p = 0")
  case True
  then show ?thesis using assms fl_nonneg[of q] by (simp add: fl_zero)
next
  case False
  with assms have "0 < p" "0 < q" by simp_all
  then show ?thesis using fl_pos_mono[OF \<open>0 < p\<close> assms(2)] by (simp add: fl_def)
qed

lemma fl_exact:
  assumes "0 \<le> m" "m \<le> 2 ^ 53"
  shows "fl (of_int m) = of_int m"
proof (cases "m = 0")
  case True
  then show ?thesis by (simp add: fl_zero)
next
  case False
  with assms have m: "0 < m" by simp
  then have "0 < (of_int m :: rat)" by simp
  then show ?thesis using fl_pos_exact[OF m assms(2)] by (simp add: fl_def)
qed

lemma fl_one: "fl 1 = 1"
  using fl_exact[of 1] by simp

lemma fl_error:
  assumes "0 \<le> q"
  shows "\<bar>fl q - q\<bar> \<le> q / 2 ^ 53"
proof (cases "q = 0")
  case True
  then show ?thesis by (simp add: fl_zero)
next
  case False
  with assms have "0 < q" by simp
  then show ?thesis using fl_pos_error[of q] by (simp add: fl_def)
qed

lemma py_int_nonneg: "0 \<le> r \<Longrightarrow> py_int r = \<lfloor>r\<rfloor>"
  by (simp add: py_int_def)

lemma true_div_255_bounds:
  "0 \<le> true_div (int v) 255" "v \<le> 255 \<Longrightarrow> true_div (int v) 255 \<le> 1"
proof -
  show "0 \<le> true_div (int v) 255" by (simp add: true_div_def fl_nonneg)
  assume "v \<le> 255"
  then have "(of_nat v :: rat) / 255 \<le> 1" by simp
  then have "fl (of_nat v / 255) \<le> fl 1" by (intro fl_mono) simp_all
  then show "true_div (int v) 255 \<le> 1" by (simp add: true_div_def fl_one)
qed

lemma true_div_255_mono:
  "v1 \<le> v2 \<Longrightarrow> true_div (int v1) 255 \<le> true_div (int v2) 255"
  unfolding true_div_def by (intro fl_mono) (simp_all add: divide_right_mono)

lemma float_of_int_nonneg: "0 \<le> m \<Longrightarrow> 0 \<le> float_of_int m"
  by (simp add: float_of_int_def fl_nonneg)

lemma char_index_mono_aux:
  assumes "v1 \<le> v2" "chars \<noteq> []"
  shows "char_index v1 chars \<le> char_index v2 chars"
proof -
  define M where "M = float_of_int (int (length chars) - 1)"
  have "0 \<le> int (length chars) - 1" using assms(2) by (cases chars) simp_all
  then have M: "0 \<le> M" unfolding M_def by (rule float_of_int_nonneg)
  have p1: "0 \<le> true_div (int v1) 255 * M"
    using true_div_255_bounds(1)[of v1] M by simp
  have le: "true_div (int v1) 255 * M \<le> true_div (int v2) 255 * M"
    using true_div_255_mono[OF assms(1)] M by (rule mult_right_mono)
  have f: "fl (true_div (int v1) 255 * M) \<le> fl (true_div (int v2) 255 * M)"
    using p1 le by (rule fl_mono)
  have n1: "0 \<le> fl (true_div (int v1) 255 * M)" using p1 by (rule fl_nonneg)
  then have n2: "0 \<le> fl (true_div (int v2) 255 * M)" using f by simp
  show ?thesis
    using f n1 n2
    by (simp add: char_index_def float_mul_def M_def[symmetric] py_int_nonneg floor_mono)
qed

lemma char_index_range_aux:
  assumes "v \<le> 255" "chars \<noteq> []" "length chars \<le> 2 ^ 53 + 1"
  shows "0 \<le> char_index v chars" "char_index v chars \<le> int (length chars) - 1"
proof -
  define m where "m = int (length chars) - 1"
  have m0: "0 \<le> m" using assms(2) by (cases chars) (simp_all add: m_def)
  have "int (length chars) \<le> int (2 ^ 53 + 1)" using assms(3) by (simp only: of_nat_le_iff)
  then have m53: "m \<le> 2 ^ 53" by (simp add: m_def)
  have M: "float_of_int m = of_int m"
    unfolding float_of_int_def using m0 m53 by (rule fl_exact)
  define d where "d = true_div (int v) 255"
  have d: "0 \<le> d" "d \<le> 1" using true_div_255_bounds[of v] assms(1) by (simp_all add: d_def)
  have p0: "0 \<le> d * of_int m" using d m0 by simp
  have "d * of_int m \<le> 1 * of_int m" using d(2) m0 by (intro mult_right_mono) simp_all
  then have "fl (d * of_int m) \<le> fl (of_int m)" using p0 by (intro fl_mono) simp_all
  then have up: "fl (d * of_int m) \<le> of_int m" using fl_exact[OF m0 m53] by simp
  have lo: "0 \<le> fl (d * of_int m)" using p0 by (rule fl_nonneg)
  have ci: "char_index v chars = \<lfloor>fl (d * of_int m)\<rfloor>"
    using lo by (simp add: char_index_def float_mul_def m_def[symmetric] M d_def[symmetric] py_int_nonneg)
  show "0 \<le> char_index v chars" using lo by (simp add: ci)
  have "\<lfloor>fl (d * of_int m)\<rfloor> \<le> \<lfloor>(of_int m :: rat)\<rfloor>" using up by (rule floor_mono)
  then show "char_index v chars \<le> int (length chars) - 1" by (simp add: ci m_def)
qed

lemma char_index_zero_aux:
  "char_index 0 chars = 0"
  by (simp add: char_index_def true_div_def float_mul_def fl_zero py_int_def)

lemma char_index_255_aux:
  assumes "chars \<noteq> []" "length chars \<le> 2 ^ 53 + 1"
  shows "char_index 255 chars = int (length chars) - 1"
proof -
  define m where "m = int (length chars) - 1"
  have m0: "0 \<le> m" using assms(1) by (cases chars) (simp_all add: m_def)
  have "int (length chars) \<le> int (2 ^ 53 + 1)" using assms(2) by (simp only: of_nat_le_iff)
  then have m53: "m \<le> 2 ^ 53" by (simp add: m_def)
  have M: "fl (of_int m) = of_int m" using m0 m53 by (rule fl_exact)
  have "true_div (int 255) 255 = 1" by (simp add: true_div_def fl_one)
  then show ?thesis
    using m0 by (simp add: char_index_def float_mul_def float_of_int_def m_def[symmetric] M py_int_def)
qed

lemma char_index_error_aux:
  assumes v: "v \<le> 255" and ne: "chars \<noteq> []" and len: "length chars \<le> 2 ^ 43"
  defines "x \<equiv> (of_nat v :: rat) / 255 * (of_nat (length chars) - 1)"
  shows "\<exists>r. char_index v chars = \<lfloor>r\<rfloor> \<and> \<bar>r - x\<bar> \<le> 3 * x / 2 ^ 53 \<and> 0 \<le> x \<and> x \<le> 2 ^ 43"
proof -
  define m where "m = int (length chars) - 1"
  have m0: "0 \<le> m" using ne by (cases chars) (simp_all add: m_def)
  have "int (length chars) \<le> int (2 ^ 43)" using len by (simp only: of_nat_le_iff)
  then have m43: "m \<le> 2 ^ 43" by (simp add: m_def)
  then have m53: "m \<le> 2 ^ 53" by simp
  define M :: rat where "M = of_int m"
  have M0: "0 \<le> M" using m0 by (simp add: M_def)
  have "(of_int m :: rat) \<le> of_int (2 ^ 43)" using m43 by (simp only: of_int_le_iff)
  then have M43: "M \<le> 2 ^ 43" by (simp add: M_def)
  have fM: "float_of_int m = M"
    unfolding float_of_int_def M_def using m0 m53 by (rule fl_exact)
  define a :: rat where "a = of_nat v / 255"
  have a: "0 \<le> a" "a \<le> 1" using v by (simp_all add: a_def)
  define d where "d = fl a"
  have d0: "0 \<le> d" unfolding d_def using a(1) by (rule fl_nonneg)
  have da: "\<bar>d - a\<bar> \<le> a / 2 ^ 53" unfolding d_def using a(1) by (rule fl_error)
  define r where "r = fl (d * M)"
  have p0: "0 \<le> d * M" using d0 M0 by simp
  have r0: "0 \<le> r" unfolding r_def using p0 by (rule fl_nonneg)
  have rp: "\<bar>r - d * M\<bar> \<le> d * M / 2 ^ 53" unfolding r_def using p0 by (rule fl_error)
  have xM: "x = a * M" by (simp add: x_def a_def M_def m_def)
  have x0: "0 \<le> x" using a M0 by (simp add: xM)
  have "a * M \<le> 1 * M" using a(2) M0 by (rule mult_right_mono)
  then have x43: "x \<le> 2 ^ 43" using M43 by (simp add: xM)
  have "\<bar>d * M - x\<bar> = \<bar>d - a\<bar> * M" using M0 by (simp add: xM abs_mult flip: left_diff_distrib)
  also have "\<dots> \<le> a / 2 ^ 53 * M" using da M0 by (rule mult_right_mono)
  finally have px: "\<bar>d * M - x\<bar> \<le> x / 2 ^ 53" by (simp add: xM)
  have "d * M \<le> x + x / 2 ^ 53" using px by linarith
  also have "\<dots> \<le> 2 * x" using x0 by simp
  finally have "d * M / 2 ^ 53 \<le> 2 * x / 2 ^ 53" by (rule divide_right_mono) simp
  with rp have "\<bar>r - d * M\<bar> \<le> 2 * x / 2 ^ 53" by linarith
  with px have "\<bar>r - x\<bar> \<le> x / 2 ^ 53 + 2 * x / 2 ^ 53" by linarith
  then have "\<bar>r - x\<bar> \<le> 3 * x / 2 ^ 53" by simp
  moreover have "char_index v chars = \<lfloor>r\<rfloor>"
    using r0 by (simp add: char_index_def float_mul_def true_div_def m_def[symmetric] fM
        a_def[symmetric] d_def[symmetric] r_def[symmetric] py_int_nonneg)
  ultimately show ?thesis using x0 x43 by blast
qed

lemma char_index_floor_aux:
  assumes v: "v \<le> 255" and ne: "chars \<noteq> []" and len: "length chars \<le> 2 ^ 43"
  shows "char_index v chars = index_spec v (length chars)
         \<or> (0 < v * (length chars - 1) \<and> 255 dvd v * (length chars - 1)
            \<and> char_index v chars = index_spec v (length chars) - 1)"
proof -
  define x where "x = (of_nat v :: rat) / 255 * (of_nat (length chars) - 1)"
  from char_index_error_aux[OF assms] obtain r where
    ci: "char_index v chars = \<lfloor>r\<rfloor>" and err: "\<bar>r - x\<bar> \<le> 3 * x / 2 ^ 53"
    and x0: "0 \<le> x" and x43: "x \<le> 2 ^ 43"
    unfolding x_def by blast
  have n1: "1 \<le> length chars" using ne by (cases chars) simp_all
  define t where "t = v * (length chars - 1)"
  have xt: "x = of_nat t / 255" using n1 by (simp add: x_def t_def of_nat_diff)
  define k where "k = int (t div 255)"
  define s where "s = t mod 255"
  have t: "t = 255 * (t div 255) + s" by (simp add: s_def)
  have "(of_nat t :: rat) = 255 * of_nat (t div 255) + of_nat s"
    by (subst t) (simp only: of_nat_add of_nat_mult of_nat_numeral)
  then have xk: "x = of_int k + of_nat s / 255" by (simp add: xt k_def add_divide_distrib)
  have s: "s < 255" by (simp add: s_def)
  have spec: "index_spec v (length chars) = \<lfloor>x\<rfloor>" by (simp add: index_spec_def x_def)
  have small: "3 * x / 2 ^ 53 \<le> 3 / 1024" using x43 by simp
  with err have "\<bar>r - x\<bar> \<le> 3 / 1024" by linarith
  then have lo: "x - 3 / 1024 \<le> r" and hi: "r \<le> x + 3 / 1024" by linarith+
  show ?thesis
  proof (cases "s = 0")
    case True
    then have xi: "x = of_int k" by (simp add: xk)
    then have fx: "\<lfloor>x\<rfloor> = k" by simp
    show ?thesis
    proof (cases "t = 0")
      case True
      then have "x = 0" by (simp add: xt)
      with err have "r = 0" by simp
      then show ?thesis using \<open>x = 0\<close> by (simp add: ci spec)
    next
      case False
      have dv: "255 dvd t" using \<open>s = 0\<close> by (simp add: s_def dvd_eq_mod_eq_0)
      have "of_int (k - 1) = x - 1" "of_int (k + 1) = x + 1" by (simp_all add: xi)
      then have "of_int (k - 1) \<le> r" "r < of_int (k + 1)"
        using lo hi by linarith+
      then have "k - 1 \<le> \<lfloor>r\<rfloor>" "\<lfloor>r\<rfloor> < k + 1"
        by (simp_all only: le_floor_iff floor_less_iff)
      then have "\<lfloor>r\<rfloor> = k \<or> \<lfloor>r\<rfloor> = k - 1" by linarith
      then show ?thesis using False dv by (auto simp: ci spec fx t_def)
    qed
  next
    case False
    then have "1 \<le> s" "s \<le> 254" using s by simp_all
    then have "(of_nat 1 :: rat) \<le> of_nat s" "(of_nat s :: rat) \<le> of_nat 254"
      by (simp_all only: of_nat_le_iff)
    then have "(1::rat) \<le> of_nat s" "(of_nat s :: rat) \<le> 254"
      by simp_all
    then have sx: "of_int k + 1 / 255 \<le> x" "x \<le> of_int k + 254 / 255"
      by (simp_all add: xk divide_right_mono)
    then have "of_int k \<le> x" "x < of_int k + 1" by simp_all
    then have fx: "\<lfloor>x\<rfloor> = k" by (simp add: floor_unique)
    have "of_int k \<le> r" "r < of_int k + 1"
      using lo hi sx by linarith+
    then have "\<lfloor>r\<rfloor> = k" by (simp add: floor_unique)
    then show ?thesis by (simp add: ci spec fx)
  qed
qed

text \<open>
  Where a bound \<open>2^53 + 1\<close> on the length of the palette appears below, it keeps the
  length minus one among the integers that a double holds exactly. A palette of
  \<open>2^53 + 4\<close> characters, which no memory holds, would round to its own length.
\<close>

lemma float_of_int_long: "float_of_int 9007199254740995 = 9007199254740996"
  by code_simp

lemma float_mul_long: "float_mul (true_div 255 255) 9007199254740996 = 9007199254740996"
  by code_simp

lemma char_index_255_long:
  "char_index 255 (replicate 9007199254740996 c) = 9007199254740996"
proof -
  have "int (length (replicate 9007199254740996 c)) - 1 = 9007199254740995" by simp
  then show ?thesis
    unfolding char_index_def by (simp add: float_of_int_long float_mul_long py_int_def)
qed

section \<open>The loops\<close>

lemma replace_char_concat:
  "replace_char old new s = concat (map (\<lambda>c. if c = old then new else [c]) s)"
  by (induction s) auto

lemma replace_char_append:
  "replace_char old new (s @ t) = replace_char old new s @ replace_char old new t"
  by (induction s) auto

lemma escape_line_Cons:
  "escape_line (c # s) = escape_char_spec c @ escape_line s"
  by (simp add: escape_line_def replace_char_append)

lemma escape_line_Nil: "escape_line [] = []"
  by (simp add: escape_line_def)


lemma print_lines_eq:
  "print_lines art out = out @ concat (map (\<lambda>row. row @ newline) art)"
  by (induction art arbitrary: out) auto

lemma join_newline_concat:
  "art \<noteq> [] \<Longrightarrow> concat (map (\<lambda>row. row @ sep) art) = join sep art @ sep"
  by (induction sep art rule: join.induct) auto

lemma inner_loop_length:
  "inner_loop pixels width chars i js line = Inr l \<Longrightarrow> length l = length line + length js"
  by (induction js arbitrary: line) (auto split: sum.splits)

lemma outer_loop_length:
  "outer_loop pixels width chars is acc = Inr art \<Longrightarrow>
     length art = length acc + length is
     \<and> (\<forall>row \<in> set art. row \<in> set acc \<or> length row = nat width)"
proof (induction "is" arbitrary: acc)
  case Nil
  then show ?case by simp
next
  case (Cons i "is")
  from Cons.prems obtain line where
    l: "inner_loop pixels width chars i [0..<nat width] [] = Inr line"
    and r: "outer_loop pixels width chars is (acc @ [line]) = Inr art"
    by (auto split: sum.splits)
  from inner_loop_length[OF l] have "length line = nat width" by simp
  with Cons.IH[OF r] show ?case by auto
qed


lemma str_getitem_in_range:
  "0 \<le> k \<Longrightarrow> k \<le> int (length s) - 1 \<Longrightarrow> str_getitem s k = Inr (s ! nat k)"
  by (simp add: str_getitem_def Let_def)

lemma str_getitem_empty: "str_getitem [] k = Inl (IndexError ''string index out of range'')"
  by (simp add: str_getitem_def Let_def)

lemma str_getitem_quantize:
  assumes "v \<le> 255" "chars \<noteq> []" "length chars \<le> 2 ^ 53 + 1"
  shows "str_getitem chars (char_index v chars) = Inr (chars ! nat (char_index v chars))"
  using char_index_range_aux[OF assms] by (rule str_getitem_in_range)






lemma image_to_ascii_empty_palette:
  assumes "decode image_path width height = Inr pixels"
    and "length pixels = nat width * nat height" and "0 < width" and "0 < height"
  shows "image_to_ascii decode image_path width height [] =
     Inl (''Error processing image: string index out of range'' @ newline)"
proof -
  have w: "[0..<nat width] = 0 # [1..<nat width]" using assms(3) by (simp add: upt_conv_Cons)
  have h: "[0..<nat height] = 0 # [1..<nat height]" using assms(4) by (simp add: upt_conv_Cons)
  have "0 < nat width * nat height" using assms(3,4) by simp
  then have p: "0 < length pixels" by (simp add: assms(2))
  have "inner_loop pixels width [] 0 [0..<nat width] [] = Inl (IndexError ''string index out of range'')"
    unfolding w using p by (simp add: getdata_item_def str_getitem_empty)
  then have "outer_loop pixels width [] [0..<nat height] [] = Inl (IndexError ''string index out of range'')"
    unfolding h by simp
  then show ?thesis by (simp add: image_to_ascii_def assms(1))
qed

section \<open>The markup\<close>


















section \<open>Claims\<close>

text \<open>
  C1, as amended. The claim says that the index is \<open>floor(v / 255 * (n - 1))\<close>. The source
  evaluates the expression in double precision, rounding twice. For a sample in \<open>[0,255]\<close>
  and a palette of \<open>1 \<le> n \<le> 2^43\<close> characters the index is the exact floor whenever
  \<open>v * (n - 1)\<close> is zero or not a multiple of 255; when it is a positive multiple of 255
  the index is the exact quotient or one below it. In every case the index is inside the
  palette and the character at that index is selected. For \<open>n = 1\<close> the product is zero,
  so the index is 0.
\<close>

theorem char_index_floor:
  assumes "v \<le> 255" and "chars \<noteq> []" and "length chars \<le> 2 ^ 43"
  shows "(char_index v chars = index_spec v (length chars)
          \<or> (0 < v * (length chars - 1) \<and> 255 dvd v * (length chars - 1)
             \<and> char_index v chars = index_spec v (length chars) - 1))
         \<and> str_getitem chars (char_index v chars) = Inr (chars ! nat (char_index v chars))"
proof
  show "char_index v chars = index_spec v (length chars)
          \<or> (0 < v * (length chars - 1) \<and> 255 dvd v * (length chars - 1)
             \<and> char_index v chars = index_spec v (length chars) - 1)"
    using assms by (rule char_index_floor_aux)
  have "length chars \<le> 2 ^ 53 + 1"
  proof -
    have "(2::nat) ^ 43 \<le> 2 ^ 53" by (rule power_increasing) simp_all
    with assms(3) show ?thesis by linarith
  qed
  with assms(1,2) show "str_getitem chars (char_index v chars) = Inr (chars ! nat (char_index v chars))"
    by (rule str_getitem_quantize)
qed

text \<open>
  The sample 155 with the 52 letters: \<open>155 * 51 = 255 * 31\<close>, and the source selects
  index 30.
\<close>

theorem char_index_floor_witness:
  "(155::nat) \<le> 255 \<and> letters \<noteq> [] \<and> length letters \<le> 2 ^ 43
   \<and> (char_index 155 letters = index_spec 155 (length letters)
        \<or> (0 < 155 * (length letters - 1) \<and> 255 dvd 155 * (length letters - 1)
           \<and> char_index 155 letters = index_spec 155 (length letters) - 1))
   \<and> str_getitem letters (char_index 155 letters) = Inr (letters ! nat (char_index 155 letters))"
proof -
  have h: "(155::nat) \<le> 255" "letters \<noteq> []" "length letters \<le> 2 ^ 43"
    by (simp_all add: letters_def)
  show ?thesis using h char_index_floor[OF h] by blast
qed

text \<open>
  C1 as stated fails: for the sample 155 and the 52 letters the exact floor is 31, the
  character \<open>F\<close>, and the source selects index 30, the character \<open>E\<close>.
\<close>

theorem char_index_floor_counterexample:
  "str_getitem letters (char_index 155 letters) = Inr CHR ''E''
   \<and> letters ! nat (index_spec 155 (length letters)) = CHR ''F''"
  by code_simp

text \<open>
  C2. Escaping a row with the three replacements in the order of the source, the
  ampersand first, equals one pass over the row that replaces each of the three
  characters once and leaves every other character as it is. The row \<open>&<>\<close> escapes to
  \<open>&amp;&lt;&gt;\<close>.
\<close>

theorem escape_line_single_pass:
  "escape_line line = concat (map escape_char_spec line)
   \<and> escape_line ''&<>'' = ''&amp;&lt;&gt;''"
proof
  show "escape_line line = concat (map escape_char_spec line)"
    by (induction line) (simp_all only: escape_line_Nil escape_line_Cons list.map concat.simps)
  show "escape_line ''&<>'' = ''&amp;&lt;&gt;''"
    by (simp add: escape_line_def)
qed


text \<open>
  C4. When image_to_ascii returns an art, the art has exactly \<open>height\<close> rows and every
  row has exactly \<open>width\<close> characters. (\<open>nat\<close> of the dimension is the dimension itself:
  the imaging library resizes to positive sizes only.)
\<close>

theorem image_to_ascii_dimensions:
  assumes "image_to_ascii decode image_path width height chars = Inr art"
  shows "length art = nat height \<and> (\<forall>row \<in> set art. length row = nat width)"
proof -
  from assms obtain pixels where
    "outer_loop pixels width chars [0..<nat height] [] = Inr art"
    by (auto simp: image_to_ascii_def split: sum.splits)
  from outer_loop_length[OF this] show ?thesis by simp
qed

theorem image_to_ascii_dimensions_witness:
  "image_to_ascii (\<lambda>p w h. Inr [0, 255, 255, 0, 0, 0]) ''img.png'' 3 2 ''@ '' = Inr [''@  '', ''@@@'']
   \<and> length [''@  '', ''@@@''] = nat 2
   \<and> length ''@  '' = nat 3 \<and> length ''@@@'' = nat 3"
proof -
  have h: "image_to_ascii (\<lambda>p w h. Inr [0, 255, 255, 0, 0, 0]) ''img.png'' 3 2 ''@ ''
           = Inr [''@  '', ''@@@'']"
    by code_simp
  show ?thesis using h image_to_ascii_dimensions[OF h] by simp
qed



text \<open>
  C6. For a palette of two or more characters the sample 0 selects the first character
  and the sample 255 selects the last one. (The palette has at most \<open>2^53 + 1\<close>
  characters, as every string that fits in memory has.)
\<close>

theorem char_index_extremes:
  assumes "2 \<le> length chars" and "length chars \<le> 2 ^ 53 + 1"
  shows "str_getitem chars (char_index 0 chars) = Inr (chars ! 0)
         \<and> str_getitem chars (char_index 255 chars) = Inr (chars ! (length chars - 1))"
proof -
  have ne: "chars \<noteq> []" using assms(1) by auto
  have "str_getitem chars 0 = Inr (chars ! nat 0)"
    using ne by (intro str_getitem_in_range) simp_all
  then have z: "str_getitem chars (char_index 0 chars) = Inr (chars ! 0)"
    by (simp add: char_index_zero_aux)
  have l: "char_index 255 chars = int (length chars) - 1"
    using ne assms(2) by (rule char_index_255_aux)
  have "str_getitem chars (int (length chars) - 1) = Inr (chars ! nat (int (length chars) - 1))"
    using ne by (intro str_getitem_in_range) simp_all
  moreover have "nat (int (length chars) - 1) = length chars - 1" by simp
  ultimately have "str_getitem chars (char_index 255 chars) = Inr (chars ! (length chars - 1))"
    by (simp only: l)
  with z show ?thesis by simp
qed

theorem char_index_extremes_witness:
  "2 \<le> length default_chars \<and> length default_chars \<le> 2 ^ 53 + 1
   \<and> str_getitem default_chars (char_index 0 default_chars) = Inr (default_chars ! 0)
   \<and> str_getitem default_chars (char_index 255 default_chars)
       = Inr (default_chars ! (length default_chars - 1))"
proof -
  have h: "2 \<le> length default_chars" "length default_chars \<le> 2 ^ 53 + 1"
    by (simp_all add: default_chars_def)
  show ?thesis using h char_index_extremes[OF h] by blast
qed

text \<open>
  C7. For a palette that is not empty (so for every palette of two or more characters)
  and samples \<open>v1 \<le> v2\<close>, the index computed for \<open>v1\<close> is at most the index computed
  for \<open>v2\<close>.
\<close>

theorem char_index_mono:
  assumes "v1 \<le> v2" and "chars \<noteq> []"
  shows "char_index v1 chars \<le> char_index v2 chars"
  using assms by (rule char_index_mono_aux)

theorem char_index_mono_witness:
  "(100::nat) \<le> 200 \<and> default_chars \<noteq> []
   \<and> char_index 100 default_chars \<le> char_index 200 default_chars"
proof -
  have h: "(100::nat) \<le> 200" "default_chars \<noteq> []" by (simp_all add: default_chars_def)
  show ?thesis using h char_index_mono[OF h] by blast
qed



text \<open>
  C9, as amended. The text output holds the rows of the art in order, unchanged, each
  followed by a newline: for an art that is not empty it is the rows joined by newline
  and one more newline at the end.
\<close>

theorem print_lines_rows:
  "print_lines art [] = concat (map (\<lambda>row. row @ newline) art)
   \<and> print_lines art [] = (if art = [] then [] else join newline art @ newline)"
  by (simp add: print_lines_eq join_newline_concat)

text \<open>
  C9 as stated fails: for two rows \<open>@@\<close> the output ends with a newline that the rows
  joined by newline do not have.
\<close>

theorem print_lines_rows_counterexample:
  "print_lines [''@@'', ''@@''] [] \<noteq> join newline [''@@'', ''@@'']"
  by (simp add: newline_def)

text \<open>
  C10. With an empty palette and an image that loads into a grid of \<open>width * height\<close>
  samples, \<open>width\<close> and \<open>height\<close> positive, the process reports the failure like a
  failure to load: the diagnostic on stderr, status 1, nothing on stdout.
\<close>

theorem main_empty_palette:
  assumes "decode (arg_image_path a) (arg_width a) (arg_height a) = Inr pixels"
    and "length pixels = nat (arg_width a) * nat (arg_height a)"
    and "0 < arg_width a" and "0 < arg_height a"
    and "arg_chars a = []"
  shows "main decode a =
     \<lparr>stdout = [], stderr = ''Error processing image: string index out of range'' @ newline,
      exit_status = 1\<rparr>"
  using image_to_ascii_empty_palette[of decode "arg_image_path a" "arg_width a" "arg_height a" pixels,
      OF assms(1,2,3,4)]
  by (simp add: main_def assms(5))

theorem main_empty_palette_witness:
  "sample_decode (arg_image_path (sample_args\<lparr>arg_chars := []\<rparr>))
       (arg_width (sample_args\<lparr>arg_chars := []\<rparr>)) (arg_height (sample_args\<lparr>arg_chars := []\<rparr>))
     = Inr [0, 255, 255, 0]
   \<and> length [0, 255, 255, 0 :: nat]
       = nat (arg_width (sample_args\<lparr>arg_chars := []\<rparr>)) * nat (arg_height (sample_args\<lparr>arg_chars := []\<rparr>))
   \<and> 0 < arg_width (sample_args\<lparr>arg_chars := []\<rparr>)
   \<and> 0 < arg_height (sample_args\<lparr>arg_chars := []\<rparr>)
   \<and> arg_chars (sample_args\<lparr>arg_chars := []\<rparr>) = []
   \<and> main sample_decode (sample_args\<lparr>arg_chars := []\<rparr>) =
       \<lparr>stdout = [], stderr = ''Error processing image: string index out of range'' @ newline,
        exit_status = 1\<rparr>"
proof -
  have h: "sample_decode (arg_image_path (sample_args\<lparr>arg_chars := []\<rparr>))
       (arg_width (sample_args\<lparr>arg_chars := []\<rparr>)) (arg_height (sample_args\<lparr>arg_chars := []\<rparr>))
     = Inr [0, 255, 255, 0]"
    "length [0, 255, 255, 0 :: nat]
       = nat (arg_width (sample_args\<lparr>arg_chars := []\<rparr>)) * nat (arg_height (sample_args\<lparr>arg_chars := []\<rparr>))"
    "0 < arg_width (sample_args\<lparr>arg_chars := []\<rparr>)"
    "0 < arg_height (sample_args\<lparr>arg_chars := []\<rparr>)"
    "arg_chars (sample_args\<lparr>arg_chars := []\<rparr>) = []"
    by (simp_all add: sample_decode_def sample_args_def)
  show ?thesis
    using h main_empty_palette[of sample_decode "sample_args\<lparr>arg_chars := []\<rparr>" "[0, 255, 255, 0]", OF h]
    by blast
qed

end
